theory Spec2Isabelle
  imports Complex_Main "HOL-Library.AList" "HOL-Library.Sublist" "HOL-Library.Log_Nat"
begin

section \<open>Python values used by \<^verbatim>\<open>encryption.py\<close>\<close>

text \<open>
  A Python \<^verbatim>\<open>str\<close> is a sequence of Unicode code points, so a symbol is a natural
  number and a text is a list of them. \<open>py_str\<close> reads an ASCII literal as such a text.
\<close>

type_synonym symbol = nat
type_synonym str = "symbol list"

definition py_str :: "string \<Rightarrow> str" where
  "py_str s = map of_char s"

text \<open>
  Exceptions are values. Each constructor carries the message that \<^verbatim>\<open>str(e)\<close> gives;
  \<open>ValueError\<close> is the only one the source raises itself, the others are what the
  built-in operations it calls can raise.
\<close>

datatype error =
    ValueError string
  | IndexError string
  | ZeroDivisionError string
  | TypeError string

fun error_str :: "error \<Rightarrow> str" where
  "error_str (ValueError m) = py_str m"
| "error_str (IndexError m) = py_str m"
| "error_str (ZeroDivisionError m) = py_str m"
| "error_str (TypeError m) = py_str m"

subsection \<open>The constants of Python's \<^verbatim>\<open>string\<close> module\<close>

definition ascii_lowercase :: str where
  "ascii_lowercase = py_str ''abcdefghijklmnopqrstuvwxyz''"

definition ascii_uppercase :: str where
  "ascii_uppercase = py_str ''ABCDEFGHIJKLMNOPQRSTUVWXYZ''"

definition ascii_letters :: str where
  "ascii_letters = ascii_lowercase @ ascii_uppercase"

definition digits :: str where
  "digits = py_str ''0123456789''"

text \<open>
  \<^verbatim>\<open>string.punctuation\<close> is the 32 ASCII punctuation characters in code-point order:
  \<^verbatim>\<open>!\<close> to \<^verbatim>\<open>/\<close> (33 to 47), \<^verbatim>\<open>:\<close> to \<^verbatim>\<open>@\<close> (58 to 64), \<^verbatim>\<open>[\<close> to the backquote
  (91 to 96) and \<^verbatim>\<open>{\<close> to \<^verbatim>\<open>~\<close> (123 to 126).
\<close>

definition punctuation :: str where
  "punctuation = [33 ..< 48] @ [58 ..< 65] @ [91 ..< 97] @ [123 ..< 127]"

text \<open>\<^verbatim>\<open>string.whitespace\<close>: space, tab, newline, return, vertical tab, form feed.\<close>

definition whitespace :: str where
  "whitespace = [32, 9, 10, 13, 11, 12]"

definition printable :: str where
  "printable = digits @ ascii_letters @ punctuation @ whitespace"

subsection \<open>Built-in operations that can raise\<close>

text \<open>\<^verbatim>\<open>s.index(c)\<close>: the first position of \<open>c\<close>, or \<^verbatim>\<open>ValueError\<close>.\<close>

fun index :: "'a list \<Rightarrow> 'a \<Rightarrow> error + nat" where
  "index [] c = Inl (ValueError ''substring not found'')"
| "index (x # xs) c =
     (if x = c then Inr 0
      else (case index xs c of Inl e \<Rightarrow> Inl e | Inr i \<Rightarrow> Inr (Suc i)))"

text \<open>
  \<^verbatim>\<open>s[i]\<close>: positions \<open>0\<close> to \<open>len(s) - 1\<close> read from the front, positions \<open>-1\<close> down
  to \<open>-len(s)\<close> read from the back, and every other position raises \<^verbatim>\<open>IndexError\<close>.
\<close>

definition getitem :: "'a list \<Rightarrow> int \<Rightarrow> error + 'a" where
  "getitem xs i =
     (if 0 \<le> i \<and> i < int (length xs) then Inr (xs ! nat i)
      else if - int (length xs) \<le> i \<and> i < 0 then Inr (xs ! nat (int (length xs) + i))
      else Inl (IndexError ''string index out of range''))"

text \<open>\<^verbatim>\<open>a % b\<close> on integers: the result has the sign of \<open>b\<close>, as \<open>mod\<close> on \<open>int\<close>.\<close>

definition py_mod :: "int \<Rightarrow> int \<Rightarrow> error + int" where
  "py_mod a b =
     (if b = 0 then Inl (ZeroDivisionError ''integer modulo by zero'') else Inr (a mod b))"

section \<open>The cipher\<close>

text \<open>
  \<^verbatim>\<open>CaesarCipher\<close> has one attribute, set by \<^verbatim>\<open>__init__\<close> and assigned nowhere else:
  the methods only read \<open>self\<close>.
\<close>

record CaesarCipher =
  charset :: str

definition init :: CaesarCipher where
  "init = \<lparr>charset = ascii_letters @ digits @ punctuation @ [32, 10, 9]\<rparr>"

text \<open>
  The loop of \<^verbatim>\<open>encrypt\<close> over the characters of the text; the last argument is the
  list \<^verbatim>\<open>encrypted_chars\<close> built so far.
\<close>

fun encrypt_loop :: "CaesarCipher \<Rightarrow> int \<Rightarrow> str \<Rightarrow> str \<Rightarrow> error + str" where
  "encrypt_loop self shift [] encrypted_chars = Inr encrypted_chars"
| "encrypt_loop self shift (char # rest) encrypted_chars =
     (if char \<in> set (charset self) then
        (case index (charset self) char of
           Inl e \<Rightarrow> Inl e
         | Inr old_index \<Rightarrow>
        (case py_mod (int old_index + shift) (int (length (charset self))) of
           Inl e \<Rightarrow> Inl e
         | Inr new_index \<Rightarrow>
        (case getitem (charset self) new_index of
           Inl e \<Rightarrow> Inl e
         | Inr c \<Rightarrow> encrypt_loop self shift rest (encrypted_chars @ [c]))))
      else encrypt_loop self shift rest (encrypted_chars @ [char]))"

definition encrypt :: "CaesarCipher \<Rightarrow> str \<Rightarrow> int \<Rightarrow> error + str" where
  "encrypt self text shift =
     (if \<not> (1 \<le> shift \<and> shift \<le> 25) then Inl (ValueError ''Shift must be between 1 and 25'')
      else if text = [] then Inl (ValueError ''Text cannot be empty'')
      else encrypt_loop self shift text [])"

fun decrypt_loop :: "CaesarCipher \<Rightarrow> int \<Rightarrow> str \<Rightarrow> str \<Rightarrow> error + str" where
  "decrypt_loop self shift [] decrypted_chars = Inr decrypted_chars"
| "decrypt_loop self shift (char # rest) decrypted_chars =
     (if char \<in> set (charset self) then
        (case index (charset self) char of
           Inl e \<Rightarrow> Inl e
         | Inr old_index \<Rightarrow>
        (case py_mod (int old_index - shift) (int (length (charset self))) of
           Inl e \<Rightarrow> Inl e
         | Inr new_index \<Rightarrow>
        (case getitem (charset self) new_index of
           Inl e \<Rightarrow> Inl e
         | Inr c \<Rightarrow> decrypt_loop self shift rest (decrypted_chars @ [c]))))
      else decrypt_loop self shift rest (decrypted_chars @ [char]))"

definition decrypt :: "CaesarCipher \<Rightarrow> str \<Rightarrow> int \<Rightarrow> error + str" where
  "decrypt self encrypted_text shift =
     (if \<not> (1 \<le> shift \<and> shift \<le> 25) then Inl (ValueError ''Shift must be between 1 and 25'')
      else if encrypted_text = [] then Inl (ValueError ''Encrypted text cannot be empty'')
      else decrypt_loop self shift encrypted_text [])"

text \<open>
  \<^verbatim>\<open>brute_force_decrypt\<close>: the loop over \<^verbatim>\<open>range(1, 26)\<close>. The dictionary
  \<^verbatim>\<open>results\<close> is an association list in insertion order; \<open>AList.update\<close> replaces
  the value of a key that is present and appends a new key at the end, as assignment
  to a Python \<^verbatim>\<open>dict\<close> does. An exception of \<^verbatim>\<open>decrypt\<close> is caught and stored as
  the text \<^verbatim>\<open>f"Error: {e}"\<close>.
\<close>

fun brute_force_loop ::
  "CaesarCipher \<Rightarrow> str \<Rightarrow> int list \<Rightarrow> (int \<times> str) list \<Rightarrow> (int \<times> str) list" where
  "brute_force_loop self encrypted_text [] results = results"
| "brute_force_loop self encrypted_text (shift # rest) results =
     (case decrypt self encrypted_text shift of
        Inr decrypted \<Rightarrow>
          brute_force_loop self encrypted_text rest (AList.update shift decrypted results)
      | Inl e \<Rightarrow>
          brute_force_loop self encrypted_text rest
            (AList.update shift (py_str ''Error: '' @ error_str e) results))"

definition brute_force_decrypt :: "CaesarCipher \<Rightarrow> str \<Rightarrow> error + (int \<times> str) list" where
  "brute_force_decrypt self encrypted_text =
     (if encrypted_text = [] then Inl (ValueError ''Encrypted text cannot be empty'')
      else Inr (brute_force_loop self encrypted_text [1 .. 25] []))"

section \<open>Floating point, as far as \<^verbatim>\<open>analyze_encrypted_text\<close> uses it\<close>

text \<open>
  A finite Python \<^verbatim>\<open>float\<close> is an IEEE 754 binary64 number, here the rational it
  denotes. Every operation computes the exact result and rounds it to the nearest
  binary64 number, ties to the even significand; \<open>float_of\<close> is that rounding
  (53 significant bits, exponents from -1022 on, so subnormal numbers included;
  overflow is not modelled, no value here exceeds 100).
\<close>

definition round_half_even :: "rat \<Rightarrow> int" where
  "round_half_even x =
     (let f = \<lfloor>x\<rfloor>; r = x - of_int f
      in if r < 1 / 2 then f else if 1 / 2 < r then f + 1
         else if even f then f else f + 1)"

definition pow2 :: "int \<Rightarrow> rat" where
  "pow2 e = (if 0 \<le> e then 2 ^ nat e else 1 / 2 ^ nat (- e))"

text \<open>The exponent \<open>e\<close> with \<open>2 ^ e \<le> \<bar>x\<bar> < 2 ^ (e + 1)\<close>, for \<open>x \<noteq> 0\<close>.\<close>

definition binade :: "rat \<Rightarrow> int" where
  "binade x =
     (let (p, q) = quotient_of \<bar>x\<bar>; e = bitlen p - bitlen q
      in if pow2 e \<le> \<bar>x\<bar> then e else e - 1)"

definition float_of :: "rat \<Rightarrow> rat" where
  "float_of x =
     (if x = 0 then 0
      else (let ulp = pow2 (max (binade x) (- 1022) - 52)
            in of_int (round_half_even (x / ulp)) * ulp))"

text \<open>\<^verbatim>\<open>a / b\<close> on integers: the correctly rounded quotient, or \<^verbatim>\<open>ZeroDivisionError\<close>.\<close>

definition py_truediv :: "int \<Rightarrow> int \<Rightarrow> error + rat" where
  "py_truediv a b =
     (if b = 0 then Inl (ZeroDivisionError ''division by zero'')
      else Inr (float_of (of_int a / of_int b)))"

definition float_mul :: "rat \<Rightarrow> rat \<Rightarrow> rat" where
  "float_mul x y = float_of (x * y)"

text \<open>
  \<^verbatim>\<open>round(x, ndigits)\<close> on a float, for small \<open>ndigits \<ge> 0\<close>: CPython writes the exact
  value of \<open>x\<close> in decimal with \<open>ndigits\<close> places, rounding half to even, and reads the
  decimal back as the nearest float.
\<close>

definition py_round :: "rat \<Rightarrow> nat \<Rightarrow> rat" where
  "py_round x ndigits =
     float_of (of_int (round_half_even (x * 10 ^ ndigits)) / 10 ^ ndigits)"

section \<open>Analysis of a text\<close>

text \<open>
  \<^verbatim>\<open>max(iterable, key=...)\<close>: \<^verbatim>\<open>ValueError\<close> on an empty iterable; otherwise the first
  item is the candidate and a later item replaces it only when its key is strictly
  greater.
\<close>

fun py_max :: "('a \<Rightarrow> 'k::linorder) \<Rightarrow> 'a list \<Rightarrow> error + 'a" where
  "py_max key [] = Inl (ValueError ''max() iterable argument is empty'')"
| "py_max key (x # xs) =
     Inr (fold (\<lambda>item best. if key best < key item then item else best) xs x)"

text \<open>\<^verbatim>\<open>d.get(k, default)\<close> on a dictionary held as an association list.\<close>

definition dict_get :: "('k \<times> 'v) list \<Rightarrow> 'k \<Rightarrow> 'v \<Rightarrow> 'v" where
  "dict_get d k dflt = (case map_of d k of None \<Rightarrow> dflt | Some v \<Rightarrow> v)"

text \<open>
  The dictionaries with fixed keys are records. The keys \<^verbatim>\<open>char\<close>, \<^verbatim>\<open>count\<close> and
  \<^verbatim>\<open>percentage\<close> of the inner dictionary are the fields \<open>mc_char\<close>, \<open>mc_count\<close> and
  \<open>mc_percentage\<close>; the key \<^verbatim>\<open>length\<close> is the field \<open>length_chars\<close>; the other keys
  keep their names. \<^verbatim>\<open>char_frequency\<close> is a dictionary in insertion order.
\<close>

record most_common =
  mc_char :: symbol
  mc_count :: nat
  mc_percentage :: rat

record analysis =
  length_chars :: nat
  unique_chars :: nat
  char_frequency :: "(symbol \<times> nat) list"
  most_common_char :: "most_common option"
  printable_chars :: nat
  non_printable_chars :: nat

text \<open>
  The result of \<^verbatim>\<open>analyze_encrypted_text\<close> is either the dictionary
  \<^verbatim>\<open>{"error": "Empty text provided"}\<close> or the analysis dictionary.
\<close>

datatype analysis_result = ErrorMarker string | Analysis analysis

fun count_loop :: "str \<Rightarrow> analysis \<Rightarrow> analysis" where
  "count_loop [] a = a"
| "count_loop (char # rest) a =
     (let a1 = a\<lparr>char_frequency :=
                  AList.update char (dict_get (char_frequency a) char 0 + 1) (char_frequency a)\<rparr>;
          a2 = (if char \<in> set printable
                then a1\<lparr>printable_chars := printable_chars a1 + 1\<rparr>
                else a1\<lparr>non_printable_chars := non_printable_chars a1 + 1\<rparr>)
      in count_loop rest a2)"

definition analyze_encrypted_text :: "CaesarCipher \<Rightarrow> str \<Rightarrow> error + analysis_result" where
  "analyze_encrypted_text self encrypted_text =
     (if encrypted_text = [] then Inr (ErrorMarker ''Empty text provided'')
      else
        (let a = count_loop encrypted_text
                   \<lparr>length_chars = length encrypted_text,
                    unique_chars = card (set encrypted_text),
                    char_frequency = [],
                    most_common_char = None,
                    printable_chars = 0,
                    non_printable_chars = 0\<rparr>
         in if char_frequency a \<noteq> [] then
              (case py_max snd (char_frequency a) of
                 Inl e \<Rightarrow> Inl e
               | Inr mc \<Rightarrow>
              (case py_truediv (int (snd mc)) (int (length encrypted_text)) of
                 Inl e \<Rightarrow> Inl e
               | Inr q \<Rightarrow>
                   Inr (Analysis (a\<lparr>most_common_char :=
                          Some \<lparr>mc_char = fst mc, mc_count = snd mc,
                                mc_percentage = py_round (float_mul q 100) 2\<rparr>\<rparr>))))
            else Inr (Analysis a)))"

section \<open>Shift validation and suggestions\<close>

text \<open>
  \<^verbatim>\<open>validate_shift\<close> accepts any Python value. \<^verbatim>\<open>isinstance(v, int)\<close> holds of the
  integers and of the booleans (\<^verbatim>\<open>bool\<close> is a subclass of \<^verbatim>\<open>int\<close>, with
  \<^verbatim>\<open>True == 1\<close> and \<^verbatim>\<open>False == 0\<close>). Comparing an integer with a number gives a
  truth value, with anything else \<^verbatim>\<open>TypeError\<close>.
\<close>

datatype pyval =
    PNone
  | PBool bool
  | PInt int
  | PFloat rat
  | PStr str
  | PList "pyval list"

fun isinstance_int :: "pyval \<Rightarrow> bool" where
  "isinstance_int (PInt n) = True"
| "isinstance_int (PBool b) = True"
| "isinstance_int v = False"

fun number_of :: "pyval \<Rightarrow> rat option" where
  "number_of (PInt n) = Some (of_int n)"
| "number_of (PBool b) = Some (if b then 1 else 0)"
| "number_of (PFloat x) = Some x"
| "number_of v = None"

definition int_le :: "int \<Rightarrow> pyval \<Rightarrow> error + bool" where
  "int_le n v =
     (case number_of v of
        Some x \<Rightarrow> Inr (of_int n \<le> x)
      | None \<Rightarrow> Inl (TypeError ''<= not supported between instances''))"

definition le_int :: "pyval \<Rightarrow> int \<Rightarrow> error + bool" where
  "le_int v n =
     (case number_of v of
        Some x \<Rightarrow> Inr (x \<le> of_int n)
      | None \<Rightarrow> Inl (TypeError ''<= not supported between instances''))"

text \<open>
  The body of the \<^verbatim>\<open>try\<close>: \<^verbatim>\<open>and\<close> and the chained comparison evaluate from the left
  and stop at the first false operand.
\<close>

definition validate_shift_try :: "pyval \<Rightarrow> error + bool" where
  "validate_shift_try shift =
     (if isinstance_int shift then
        (case int_le 1 shift of
           Inl e \<Rightarrow> Inl e
         | Inr b \<Rightarrow> if b then le_int shift 25 else Inr False)
      else Inr False)"

definition validate_shift :: "CaesarCipher \<Rightarrow> pyval \<Rightarrow> bool" where
  "validate_shift self shift =
     (case validate_shift_try shift of Inl e \<Rightarrow> False | Inr b \<Rightarrow> b)"

text \<open>\<^verbatim>\<open>pattern in sample\<close> on strings: \<open>pattern\<close> occurs as a contiguous substring.\<close>

fun str_contains :: "'a list \<Rightarrow> 'a list \<Rightarrow> bool" where
  "str_contains [] pattern = (pattern = [])"
| "str_contains (x # xs) pattern = (prefix pattern (x # xs) \<or> str_contains xs pattern)"

definition common_patterns :: "(str \<times> int) list" where
  "common_patterns =
     [(py_str ''def '', 3),
      (py_str ''class '', 5),
      (py_str ''print('', 7),
      (py_str ''import '', 11),
      (py_str ''if __name__'', 13)]"

text \<open>
  \<^verbatim>\<open>str.lower\<close> follows the Unicode case tables, which are not part of the program:
  \<open>generate_shift_suggestions\<close> takes it as the parameter \<open>lower\<close>. On ASCII text it is
  \<open>ascii_lower\<close>.
\<close>

definition ascii_lower :: "str \<Rightarrow> str" where
  "ascii_lower s = map (\<lambda>c. if 65 \<le> c \<and> c \<le> 90 then c + 32 else c) s"

fun suggestions_loop :: "(str \<Rightarrow> str) \<Rightarrow> str \<Rightarrow> (str \<times> int) list \<Rightarrow> int list \<Rightarrow> int list" where
  "suggestions_loop lower text_sample [] suggestions = suggestions"
| "suggestions_loop lower text_sample ((pattern, suggested_shift) # rest) suggestions =
     (if str_contains (lower text_sample) (lower pattern)
      then suggestions_loop lower text_sample rest (suggestions @ [suggested_shift])
      else suggestions_loop lower text_sample rest suggestions)"

definition generate_shift_suggestions :: "CaesarCipher \<Rightarrow> (str \<Rightarrow> str) \<Rightarrow> str \<Rightarrow> int list" where
  "generate_shift_suggestions self lower text_sample =
     (if text_sample = [] then [1, 3, 5, 13]
      else
        (let suggestions = suggestions_loop lower text_sample common_patterns [];
             suggestions = (if suggestions = [] then [1, 3, 5, 7, 13, 17, 21, 25]
                            else suggestions);
             suggestions = sort (remdups suggestions)
         in take 5 suggestions))"

section \<open>Auxiliary notions for the proofs\<close>

text \<open>
  \<open>pos xs c\<close> is the number of elements before the first \<open>c\<close> in \<open>xs\<close>, and
  \<open>shift_symbol cs k\<close> is the map on symbols that one round of the loops of
  \<open>encrypt\<close> (with \<open>k = shift\<close>) and \<open>decrypt\<close> (with \<open>k = - shift\<close>) computes.
\<close>

definition pos :: "'a list \<Rightarrow> 'a \<Rightarrow> nat" where
  "pos xs c = length (takeWhile (\<lambda>x. x \<noteq> c) xs)"

definition shift_symbol :: "str \<Rightarrow> int \<Rightarrow> symbol \<Rightarrow> symbol" where
  "shift_symbol cs k c =
     (if c \<in> set cs then cs ! nat ((int (pos cs c) + k) mod int (length cs)) else c)"

text \<open>
  \<open>found lower sample\<close> is the list \<^verbatim>\<open>suggestions\<close> after the loop over the patterns of
  \<open>generate_shift_suggestions\<close>: the shifts of the patterns that occur in the sample.
\<close>

definition found :: "(str \<Rightarrow> str) \<Rightarrow> str \<Rightarrow> int list" where
  "found lower sample =
     map snd (filter (\<lambda>(p, k). str_contains (lower sample) (lower p)) common_patterns)"

text \<open>
  \<open>tally\<close> is what the loop of \<open>analyze_encrypted_text\<close> does to the dictionary
  \<^verbatim>\<open>char_frequency\<close> alone. \<open>firsts xs\<close> lists the distinct elements of \<open>xs\<close> in the
  order of their first occurrences, and \<open>frequencies xs\<close> pairs each of them with the
  number of its occurrences.
\<close>

fun tally :: "'a list \<Rightarrow> ('a \<times> nat) list \<Rightarrow> ('a \<times> nat) list" where
  "tally [] d = d"
| "tally (c # cs) d = tally cs (AList.update c (dict_get d c 0 + 1) d)"

definition firsts :: "'a list \<Rightarrow> 'a list" where
  "firsts xs = rev (remdups (rev xs))"

definition frequencies :: "'a list \<Rightarrow> ('a \<times> nat) list" where
  "frequencies xs = map (\<lambda>c. (c, count_list xs c)) (firsts xs)"

section \<open>The loops of \<open>encrypt\<close> and \<open>decrypt\<close>\<close>

lemma pos_Nil: "pos [] c = 0"
  by (simp add: pos_def)

lemma pos_Cons: "pos (x # xs) c = (if x = c then 0 else Suc (pos xs c))"
  by (simp add: pos_def)

lemma pos_less: "c \<in> set xs \<Longrightarrow> pos xs c < length xs"
  by (induction xs) (auto simp: pos_Cons pos_Nil)

lemma nth_pos: "c \<in> set xs \<Longrightarrow> xs ! pos xs c = c"
  by (induction xs) (auto simp: pos_Cons)

lemma pos_nth: "distinct xs \<Longrightarrow> i < length xs \<Longrightarrow> pos xs (xs ! i) = i"
proof (induction xs arbitrary: i)
  case Nil
  then show ?case by simp
next
  case (Cons x xs)
  show ?case
  proof (cases i)
    case 0
    then show ?thesis by (simp add: pos_Cons)
  next
    case (Suc j)
    with Cons.prems have "j < length xs" "xs ! j \<in> set xs" "x \<notin> set xs" by auto
    then have "x \<noteq> xs ! j" by auto
    with Cons Suc show ?thesis by (simp add: pos_Cons)
  qed
qed

lemma index_pos: "c \<in> set xs \<Longrightarrow> index xs c = Inr (pos xs c)"
  by (induction xs) (auto simp: pos_Cons)

lemma getitem_nat: "0 \<le> i \<Longrightarrow> i < int (length xs) \<Longrightarrow> getitem xs i = Inr (xs ! nat i)"
  by (simp add: getitem_def)

lemma encrypt_loop_eq:
  "encrypt_loop self k t acc = Inr (acc @ map (shift_symbol (charset self) k) t)"
proof (induction t arbitrary: acc)
  case Nil
  then show ?case by simp
next
  case (Cons c t)
  show ?case
  proof (cases "c \<in> set (charset self)")
    case True
    then have len: "0 < int (length (charset self))" by (cases "charset self") auto
    let ?m = "(int (pos (charset self) c) + k) mod int (length (charset self))"
    have "0 \<le> ?m" "?m < int (length (charset self))" using len by simp_all
    then have "getitem (charset self) ?m = Inr (charset self ! nat ?m)"
      by (rule getitem_nat)
    with True len show ?thesis
      by (simp add: index_pos py_mod_def Cons.IH shift_symbol_def)
  next
    case False
    then show ?thesis by (simp add: Cons.IH shift_symbol_def)
  qed
qed

lemma decrypt_loop_eq:
  "decrypt_loop self k t acc = Inr (acc @ map (shift_symbol (charset self) (- k)) t)"
proof (induction t arbitrary: acc)
  case Nil
  then show ?case by simp
next
  case (Cons c t)
  show ?case
  proof (cases "c \<in> set (charset self)")
    case True
    then have len: "0 < int (length (charset self))" by (cases "charset self") auto
    let ?m = "(int (pos (charset self) c) - k) mod int (length (charset self))"
    have "0 \<le> ?m" "?m < int (length (charset self))" using len by simp_all
    then have "getitem (charset self) ?m = Inr (charset self ! nat ?m)"
      by (rule getitem_nat)
    with True len show ?thesis
      by (simp add: index_pos py_mod_def Cons.IH shift_symbol_def)
  next
    case False
    then show ?thesis by (simp add: Cons.IH shift_symbol_def)
  qed
qed

lemma shift_symbol_inverse:
  assumes "distinct cs"
  shows "shift_symbol cs (- k) (shift_symbol cs k c) = c"
proof (cases "c \<in> set cs")
  case False
  then show ?thesis by (simp add: shift_symbol_def)
next
  case True
  then have len: "0 < int (length cs)" by (cases cs) auto
  let ?L = "int (length cs)"
  let ?p = "int (pos cs c)"
  let ?m = "(?p + k) mod ?L"
  have m: "0 \<le> ?m" "?m < ?L" using len by simp_all
  then have mlt: "nat ?m < length cs" by linarith
  have p: "?p < ?L" using True by (simp add: pos_less)
  have enc: "shift_symbol cs k c = cs ! nat ?m" using True by (simp add: shift_symbol_def)
  have posm: "pos cs (cs ! nat ?m) = nat ?m" using assms mlt by (rule pos_nth)
  have "(int (nat ?m) + - k) mod ?L = (?m - k) mod ?L" using m by simp
  also have "\<dots> = (?p + k - k) mod ?L" by (simp add: mod_diff_left_eq)
  also have "\<dots> = ?p" using p by simp
  finally have wrap: "(int (nat ?m) + - k) mod ?L = ?p" .
  have "shift_symbol cs (- k) (cs ! nat ?m) = cs ! nat ((int (pos cs (cs ! nat ?m)) + - k) mod ?L)"
    using mlt by (simp add: shift_symbol_def)
  also have "\<dots> = cs ! pos cs c" by (simp only: posm wrap nat_int)
  also have "\<dots> = c" using True by (rule nth_pos)
  finally show ?thesis by (simp add: enc)
qed

lemma distinct_charset: "distinct (charset init)"
  by code_simp

lemma length_charset: "length (charset init) = 97"
  by code_simp

lemma encrypt_eq_map:
  "t \<noteq> [] \<Longrightarrow> 1 \<le> s \<Longrightarrow> s \<le> 25 \<Longrightarrow>
   encrypt self t s = Inr (map (shift_symbol (charset self) s) t)"
  by (simp add: encrypt_def encrypt_loop_eq)

lemma decrypt_eq_map:
  "t \<noteq> [] \<Longrightarrow> 1 \<le> s \<Longrightarrow> s \<le> 25 \<Longrightarrow>
   decrypt self t s = Inr (map (shift_symbol (charset self) (- s)) t)"
  by (simp add: decrypt_def decrypt_loop_eq)

lemma decrypt_shifted:
  "t \<noteq> [] \<Longrightarrow> 1 \<le> s \<Longrightarrow> s \<le> 25 \<Longrightarrow>
   decrypt init (map (shift_symbol (charset init) s) t) s = Inr t"
  by (simp add: decrypt_eq_map shift_symbol_inverse [OF distinct_charset] o_def)

section \<open>Round trip\<close>

text \<open>
  Claim C1. For every non-empty text \<open>t\<close> and every shift \<open>s\<close> from 1 to 25,
  \<open>encrypt\<close> returns a text, and \<open>decrypt\<close> of that text with the same shift returns
  \<open>t\<close> itself, symbols outside the character set included.
\<close>

theorem encrypt_decrypt_roundtrip:
  "t \<noteq> [] \<Longrightarrow> 1 \<le> s \<Longrightarrow> s \<le> 25 \<Longrightarrow>
   \<exists>c. encrypt init t s = Inr c \<and> decrypt init c s = Inr t"
  by (simp add: encrypt_eq_map decrypt_shifted)

theorem encrypt_decrypt_roundtrip_witness:
  "encrypt init (py_str ''Go!'' @ [233]) 3 = Inr (py_str ''Jr$'' @ [233]) \<and>
   decrypt init (py_str ''Jr$'' @ [233]) 3 = Inr (py_str ''Go!'' @ [233])"
proof -
  have e: "encrypt init (py_str ''Go!'' @ [233]) 3 = Inr (py_str ''Jr$'' @ [233])"
    by code_simp
  from encrypt_decrypt_roundtrip [of "py_str ''Go!'' @ [233]" 3] e show ?thesis
    by (simp add: py_str_def)
qed

lemma shift_symbol_outside: "c \<notin> set cs \<Longrightarrow> shift_symbol cs k c = c"
  by (simp add: shift_symbol_def)

lemma shift_symbol_at:
  "distinct cs \<Longrightarrow> p < length cs \<Longrightarrow>
   shift_symbol cs k (cs ! p) = cs ! nat ((int p + k) mod int (length cs))"
  by (simp add: shift_symbol_def pos_nth)

section \<open>What \<open>encrypt\<close> computes\<close>

text \<open>
  Claim C2. For every non-empty text \<open>t\<close> and every shift \<open>s\<close> from 1 to 25, \<open>encrypt\<close>
  returns a text of the same length in which each position depends on the symbol at
  that position of \<open>t\<close> only: a symbol outside the character set is kept, and a symbol
  at position \<open>p\<close> of the character set becomes the symbol at position
  \<open>(p + s) mod L\<close>, where \<open>L\<close> is the length of the character set.
\<close>

theorem encrypt_symbolwise:
  "t \<noteq> [] \<Longrightarrow> 1 \<le> s \<Longrightarrow> s \<le> 25 \<Longrightarrow>
   \<exists>out. encrypt init t s = Inr out \<and> length out = length t \<and>
     (\<forall>i < length t.
        (t ! i \<notin> set (charset init) \<longrightarrow> out ! i = t ! i) \<and>
        (\<forall>p < length (charset init). charset init ! p = t ! i \<longrightarrow>
           out ! i = charset init ! nat ((int p + s) mod int (length (charset init)))))"
proof -
  assume a: "t \<noteq> []" "1 \<le> s" "s \<le> 25"
  let ?out = "map (shift_symbol (charset init) s) t"
  have e: "encrypt init t s = Inr ?out" using a by (rule encrypt_eq_map)
  have "\<And>i. i < length t \<Longrightarrow> t ! i \<notin> set (charset init) \<Longrightarrow> ?out ! i = t ! i"
    by (simp add: shift_symbol_outside)
  moreover have "\<And>i p. i < length t \<Longrightarrow> p < length (charset init) \<Longrightarrow>
      charset init ! p = t ! i \<Longrightarrow>
      ?out ! i = charset init ! nat ((int p + s) mod int (length (charset init)))"
    using shift_symbol_at [OF distinct_charset] by (metis nth_map)
  ultimately show ?thesis using e by (intro exI [of _ ?out]) simp
qed

theorem encrypt_symbolwise_witness:
  "encrypt init (py_str ''a~'' @ [233, 9]) 25 = Inr (py_str ''zv'' @ [233] @ py_str ''y'') \<and>
   length (py_str ''zv'' @ [233] @ py_str ''y'') = length (py_str ''a~'' @ [233, 9])"
proof -
  have ne: "py_str ''a~'' @ [233, 9] \<noteq> []" by (simp add: py_str_def)
  have "\<exists>out. encrypt init (py_str ''a~'' @ [233, 9]) 25 = Inr out \<and>
      length out = length (py_str ''a~'' @ [233, 9])"
    using encrypt_symbolwise [OF ne, of 25] by auto
  then obtain out where o: "encrypt init (py_str ''a~'' @ [233, 9]) 25 = Inr out"
    and l: "length out = length (py_str ''a~'' @ [233, 9])" by blast
  have "encrypt init (py_str ''a~'' @ [233, 9]) 25 = Inr (py_str ''zv'' @ [233] @ py_str ''y'')"
    by code_simp
  then show ?thesis by (simp add: py_str_def)
qed

section \<open>Validation\<close>

text \<open>
  Claim C3. \<open>encrypt\<close> and \<open>decrypt\<close> check their arguments before the loop and
  return an error, with no text, when a check fails. A shift outside 1 to 25 gives
  the \<^verbatim>\<open>ValueError\<close> with the message \<^verbatim>\<open>Shift must be between 1 and 25\<close> (the
  specification's \<^verbatim>\<open>InvalidArgument\<close>), whatever the text; the empty text with a
  shift in range gives the \<^verbatim>\<open>ValueError\<close> with the message \<^verbatim>\<open>Text cannot be empty\<close>,
  for \<open>decrypt\<close> \<^verbatim>\<open>Encrypted text cannot be empty\<close> (the specification's
  \<^verbatim>\<open>EmptyInput\<close>). In particular the shifts 0, 26 and -1 are rejected as out of
  range and the empty text with shift 5 as empty.
\<close>

theorem validation_before_transformation:
  "(\<not> (1 \<le> s \<and> s \<le> 25) \<longrightarrow>
      encrypt self t s = Inl (ValueError ''Shift must be between 1 and 25'') \<and>
      decrypt self t s = Inl (ValueError ''Shift must be between 1 and 25'')) \<and>
   (1 \<le> s \<and> s \<le> 25 \<longrightarrow>
      encrypt self [] s = Inl (ValueError ''Text cannot be empty'') \<and>
      decrypt self [] s = Inl (ValueError ''Encrypted text cannot be empty'')) \<and>
   encrypt self t 0 = Inl (ValueError ''Shift must be between 1 and 25'') \<and>
   encrypt self t 26 = Inl (ValueError ''Shift must be between 1 and 25'') \<and>
   encrypt self t (- 1) = Inl (ValueError ''Shift must be between 1 and 25'') \<and>
   encrypt self [] 5 = Inl (ValueError ''Text cannot be empty'')"
  by (simp add: encrypt_def decrypt_def)

theorem validation_before_transformation_witness:
  "encrypt init (py_str ''abc'') 30 = Inl (ValueError ''Shift must be between 1 and 25'') \<and>
   decrypt init (py_str ''abc'') 30 = Inl (ValueError ''Shift must be between 1 and 25'') \<and>
   encrypt init [] 7 = Inl (ValueError ''Text cannot be empty'') \<and>
   decrypt init [] 7 = Inl (ValueError ''Encrypted text cannot be empty'')"
  using validation_before_transformation [of 30 init "py_str ''abc''"]
    validation_before_transformation [of 7 init "[]"]
  by simp

text \<open>
  Claim C10. When the shift is outside 1 to 25 and the text is empty as well, both
  \<open>encrypt\<close> and \<open>decrypt\<close> report the shift (the specification's
  \<^verbatim>\<open>InvalidArgument\<close>), not the empty text: the range check comes first.
\<close>

theorem shift_checked_before_emptiness:
  "\<not> (1 \<le> s \<and> s \<le> 25) \<Longrightarrow>
   encrypt self [] s = Inl (ValueError ''Shift must be between 1 and 25'') \<and>
   decrypt self [] s = Inl (ValueError ''Shift must be between 1 and 25'')"
  by (simp add: encrypt_def decrypt_def)

theorem shift_checked_before_emptiness_witness:
  "encrypt init [] 0 = Inl (ValueError ''Shift must be between 1 and 25'') \<and>
   decrypt init [] 0 = Inl (ValueError ''Shift must be between 1 and 25'')"
  using shift_checked_before_emptiness [of 0 init] by simp

section \<open>The character set\<close>

lemma charset_value:
  "charset init = ascii_lowercase @ ascii_uppercase @ digits @ punctuation @ [32, 10, 9]"
  by (simp add: init_def ascii_letters_def)

text \<open>
  Claim C9, as stated, puts the upper-case letters first. The character set built by
  \<^verbatim>\<open>__init__\<close> starts with the lower-case letters (\<^verbatim>\<open>string.ascii_letters\<close> is
  the lower-case alphabet followed by the upper-case one): \<^verbatim>\<open>a\<close> is at position 0
  and \<^verbatim>\<open>A\<close> at position 26.
\<close>

theorem charset_order_counterexample:
  "charset init \<noteq> ascii_uppercase @ ascii_lowercase @ digits @ punctuation @ [32, 10, 9] \<and>
   index (charset init) (of_char CHR ''a'') = Inr 0 \<and>
   index (charset init) (of_char CHR ''A'') = Inr 26"
  by code_simp

text \<open>
  Claim C9, amended. The character set is the lower-case letters, the upper-case
  letters, the digits, the punctuation, space, newline and tab, in that order. Its 97
  symbols are pairwise distinct, so every symbol of it has exactly one position, the
  one \<open>index\<close> returns; and \<open>encrypt\<close> and \<open>decrypt\<close> both work on this one
  sequence.
\<close>

theorem charset_distinct_shared:
  "charset init = ascii_lowercase @ ascii_uppercase @ digits @ punctuation @ [32, 10, 9] \<and>
   distinct (charset init) \<and>
   length (charset init) = 97 \<and>
   (\<forall>c \<in> set (charset init). \<exists>p < 97.
      index (charset init) c = Inr p \<and> charset init ! p = c \<and>
      (\<forall>q < 97. charset init ! q = c \<longrightarrow> q = p)) \<and>
   (t \<noteq> [] \<and> 1 \<le> s \<and> s \<le> 25 \<longrightarrow>
      encrypt init t s = Inr (map (shift_symbol (charset init) s) t) \<and>
      decrypt init t s = Inr (map (shift_symbol (charset init) (- s)) t))"
proof -
  have "\<exists>p < 97. index (charset init) c = Inr p \<and> charset init ! p = c \<and>
      (\<forall>q < 97. charset init ! q = c \<longrightarrow> q = p)" if c: "c \<in> set (charset init)" for c
  proof -
    have "pos (charset init) c < 97" using pos_less [OF c] by (simp add: length_charset)
    moreover have "index (charset init) c = Inr (pos (charset init) c)"
      using c by (rule index_pos)
    moreover have "charset init ! pos (charset init) c = c" using c by (rule nth_pos)
    moreover have "\<forall>q < 97. charset init ! q = c \<longrightarrow> q = pos (charset init) c"
      using pos_nth [OF distinct_charset] by (auto simp: length_charset)
    ultimately show ?thesis by blast
  qed
  then show ?thesis
    using charset_value distinct_charset length_charset encrypt_eq_map decrypt_eq_map
    by blast
qed

theorem charset_distinct_shared_witness:
  "distinct (charset init) \<and>
   index (charset init) (of_char CHR ''a'') = Inr 0 \<and>
   encrypt init (py_str ''az'') 1 = Inr (map (shift_symbol (charset init) 1) (py_str ''az'')) \<and>
   decrypt init (py_str ''az'') 1 = Inr (map (shift_symbol (charset init) (- 1)) (py_str ''az''))"
proof -
  note th = charset_distinct_shared [of "py_str ''az''" 1]
  have ne: "py_str ''az'' \<noteq> []" by (simp add: py_str_def)
  have r: "(1::int) \<le> 1" "(1::int) \<le> 25" by simp_all
  have d: "distinct (charset init)" using th by blast
  have e: "encrypt init (py_str ''az'') 1 = Inr (map (shift_symbol (charset init) 1) (py_str ''az'')) \<and>
   decrypt init (py_str ''az'') 1 = Inr (map (shift_symbol (charset init) (- 1)) (py_str ''az''))"
    using th ne r by blast
  have i: "index (charset init) (of_char CHR ''a'') = Inr 0" by code_simp
  from d e i show ?thesis by blast
qed

section \<open>Trying every shift\<close>

lemma update_fresh: "k \<notin> fst ` set al \<Longrightarrow> AList.update k v al = al @ [(k, v)]"
  by (induction al) auto

lemma brute_force_loop_eq:
  assumes "c \<noteq> []"
  shows "(\<forall>s \<in> set ss. 1 \<le> s \<and> s \<le> 25) \<Longrightarrow> distinct ss \<Longrightarrow>
     set ss \<inter> fst ` set r = {} \<Longrightarrow>
     brute_force_loop self c ss r =
       r @ map (\<lambda>s. (s, map (shift_symbol (charset self) (- s)) c)) ss"
proof (induction ss arbitrary: r)
  case Nil
  then show ?case by simp
next
  case (Cons s ss)
  let ?d = "map (shift_symbol (charset self) (- s)) c"
  have d: "decrypt self c s = Inr ?d"
    using assms Cons.prems(1) by (simp add: decrypt_eq_map)
  have fresh: "s \<notin> fst ` set r" using Cons.prems(3) by auto
  have next_keys: "set ss \<inter> fst ` set (r @ [(s, ?d)]) = {}"
    using Cons.prems(2,3) by auto
  have "brute_force_loop self c (s # ss) r = brute_force_loop self c ss (r @ [(s, ?d)])"
    by (simp add: d update_fresh [OF fresh])
  also have "\<dots> = (r @ [(s, ?d)]) @ map (\<lambda>s. (s, map (shift_symbol (charset self) (- s)) c)) ss"
    using Cons.prems(1,2) next_keys by (intro Cons.IH) auto
  finally show ?case by simp
qed

lemma brute_force_decrypt_eq:
  "c \<noteq> [] \<Longrightarrow>
   brute_force_decrypt self c =
     Inr (map (\<lambda>s. (s, map (shift_symbol (charset self) (- s)) c)) [1 .. 25])"
  using brute_force_loop_eq [of c "[1 .. 25]" "[]" self]
  by (simp add: brute_force_decrypt_def)

lemma map_of_tabulate: "k \<in> set ks \<Longrightarrow> map_of (map (\<lambda>s. (s, f s)) ks) k = Some (f k)"
  by (induction ks) auto

lemma brute_force_entries:
  assumes "c \<noteq> []"
  shows "\<exists>r. brute_force_decrypt init c = Inr r \<and> length r = 25 \<and> map fst r = [1 .. 25] \<and>
     (\<forall>s. 1 \<le> s \<and> s \<le> 25 \<longrightarrow> (\<exists>d. decrypt init c s = Inr d \<and> map_of r s = Some d))"
proof -
  let ?r = "map (\<lambda>s. (s, map (shift_symbol (charset init) (- s)) c)) [1 .. 25]"
  have "brute_force_decrypt init c = Inr ?r" using assms by (rule brute_force_decrypt_eq)
  moreover have "length ?r = 25" by simp
  moreover have "map fst ?r = [1 .. 25]" by (simp add: o_def)
  moreover have "\<exists>d. decrypt init c s = Inr d \<and> map_of ?r s = Some d"
    if "1 \<le> s \<and> s \<le> 25" for s
    using that assms by (simp add: decrypt_eq_map map_of_tabulate)
  ultimately show ?thesis by blast
qed

lemma brute_force_recovers:
  assumes "t \<noteq> []" "1 \<le> s" "s \<le> 25"
  shows "\<exists>c r. encrypt init t s = Inr c \<and> brute_force_decrypt init c = Inr r \<and>
     map_of r s = Some t"
proof -
  let ?c = "map (shift_symbol (charset init) s) t"
  have e: "encrypt init t s = Inr ?c" using assms by (rule encrypt_eq_map)
  have d: "decrypt init ?c s = Inr t" using assms by (rule decrypt_shifted)
  have "?c \<noteq> []" using assms by simp
  from brute_force_entries [OF this] obtain r
    where r: "brute_force_decrypt init ?c = Inr r"
      and all: "\<forall>s. 1 \<le> s \<and> s \<le> 25 \<longrightarrow> (\<exists>d. decrypt init ?c s = Inr d \<and> map_of r s = Some d)"
    by blast
  from all assms d have "map_of r s = Some t" by auto
  with e r show ?thesis by blast
qed

text \<open>
  Claim C4. For every non-empty ciphertext \<open>c\<close>, \<open>brute_force_decrypt\<close> returns a
  dictionary with exactly 25 entries, whose keys are the shifts 1 to 25 (in this
  order of insertion), and the entry of shift \<open>s\<close> is what \<open>decrypt\<close> returns for
  \<open>c\<close> and \<open>s\<close>. So for \<open>c\<close> the encryption of a non-empty \<open>t\<close> with a shift \<open>s\<close>
  from 1 to 25 the entry of \<open>s\<close> is \<open>t\<close>, as for \<^verbatim>\<open>abc\<close> and 3. The empty ciphertext
  is rejected with the \<^verbatim>\<open>ValueError\<close> \<^verbatim>\<open>Encrypted text cannot be empty\<close> (the
  specification's \<^verbatim>\<open>EmptyInput\<close>).
\<close>

theorem brute_force_complete:
  "(c \<noteq> [] \<longrightarrow>
      (\<exists>r. brute_force_decrypt init c = Inr r \<and> length r = 25 \<and> map fst r = [1 .. 25] \<and>
         (\<forall>s. 1 \<le> s \<and> s \<le> 25 \<longrightarrow>
            (\<exists>d. decrypt init c s = Inr d \<and> map_of r s = Some d)))) \<and>
   (t \<noteq> [] \<and> 1 \<le> s \<and> s \<le> 25 \<longrightarrow>
      (\<exists>c r. encrypt init t s = Inr c \<and> brute_force_decrypt init c = Inr r \<and>
         map_of r s = Some t)) \<and>
   (\<exists>c r. encrypt init (py_str ''abc'') 3 = Inr c \<and> brute_force_decrypt init c = Inr r \<and>
      map_of r 3 = Some (py_str ''abc'')) \<and>
   brute_force_decrypt init [] = Inl (ValueError ''Encrypted text cannot be empty'')"
proof -
  have "py_str ''abc'' \<noteq> []" by (simp add: py_str_def)
  then have "\<exists>c r. encrypt init (py_str ''abc'') 3 = Inr c \<and>
      brute_force_decrypt init c = Inr r \<and> map_of r 3 = Some (py_str ''abc'')"
    by (intro brute_force_recovers) simp_all
  moreover have "brute_force_decrypt init [] = Inl (ValueError ''Encrypted text cannot be empty'')"
    by (simp add: brute_force_decrypt_def)
  ultimately show ?thesis using brute_force_entries brute_force_recovers by blast
qed

theorem brute_force_complete_witness:
  "\<exists>r. brute_force_decrypt init (py_str ''def'') = Inr r \<and> length r = 25 \<and>
     map fst r = [1 .. 25] \<and> map_of r 3 = Some (py_str ''abc'')"
proof -
  have ne: "py_str ''def'' \<noteq> []" by (simp add: py_str_def)
  have d: "decrypt init (py_str ''def'') 3 = Inr (py_str ''abc'')" by code_simp
  from brute_force_complete [of "py_str ''def''"] ne
  obtain r where r: "brute_force_decrypt init (py_str ''def'') = Inr r" "length r = 25"
      "map fst r = [1 .. 25]"
    and all: "\<forall>s. 1 \<le> s \<and> s \<le> 25 \<longrightarrow>
       (\<exists>d. decrypt init (py_str ''def'') s = Inr d \<and> map_of r s = Some d)"
    by blast
  from all have "\<exists>d. decrypt init (py_str ''def'') 3 = Inr d \<and> map_of r 3 = Some d"
    by simp
  with d have "map_of r 3 = Some (py_str ''abc'')" by auto
  with r show ?thesis by blast
qed

section \<open>Analysis never raises\<close>

lemma py_max_nonempty: "xs \<noteq> [] \<Longrightarrow> \<exists>m. py_max key xs = Inr m"
  by (cases xs) simp_all

lemma py_truediv_nonzero: "b \<noteq> 0 \<Longrightarrow> \<exists>q. py_truediv a b = Inr q"
  by (simp add: py_truediv_def)

lemma analyze_returns: "\<exists>r. analyze_encrypted_text self t = Inr r"
proof (cases "t = []")
  case True
  then show ?thesis by (simp add: analyze_encrypted_text_def)
next
  case False
  define a where "a = count_loop t
     \<lparr>length_chars = length t, unique_chars = card (set t), char_frequency = [],
      most_common_char = None, printable_chars = 0, non_printable_chars = 0\<rparr>"
  show ?thesis
  proof (cases "char_frequency a = []")
    case True
    with False show ?thesis
      by (simp add: analyze_encrypted_text_def a_def [symmetric] Let_def)
  next
    case nonempty: False
    then obtain mc where mc: "py_max snd (char_frequency a) = Inr mc"
      using py_max_nonempty by blast
    from False have "int (length t) \<noteq> 0" by simp
    then obtain q where q: "py_truediv (int (snd mc)) (int (length t)) = Inr q"
      using py_truediv_nonzero by blast
    from False nonempty mc q show ?thesis
      by (simp add: analyze_encrypted_text_def a_def [symmetric] Let_def)
  qed
qed

text \<open>
  Claim C7. \<open>analyze_encrypted_text\<close> returns a result for every text: none of the
  operations it calls raises (\<open>max\<close> is applied to a non-empty dictionary only and the
  division has the length of a non-empty text as divisor). For the empty text the
  result is the marker \<^verbatim>\<open>{"error": "Empty text provided"}\<close>, where \<open>encrypt\<close>,
  \<open>decrypt\<close> and \<open>brute_force_decrypt\<close> raise the \<^verbatim>\<open>ValueError\<close> for an empty text
  (the specification's \<^verbatim>\<open>EmptyInput\<close>).
\<close>

theorem analyze_never_fails:
  "(\<exists>r. analyze_encrypted_text self t = Inr r) \<and>
   analyze_encrypted_text self [] = Inr (ErrorMarker ''Empty text provided'') \<and>
   (1 \<le> s \<and> s \<le> 25 \<longrightarrow>
      encrypt self [] s = Inl (ValueError ''Text cannot be empty'') \<and>
      decrypt self [] s = Inl (ValueError ''Encrypted text cannot be empty'')) \<and>
   brute_force_decrypt self [] = Inl (ValueError ''Encrypted text cannot be empty'')"
  using analyze_returns [of self t]
  by (simp add: analyze_encrypted_text_def encrypt_def decrypt_def brute_force_decrypt_def)

theorem analyze_never_fails_witness:
  "(\<exists>r. analyze_encrypted_text init (py_str ''aabb'') = Inr r) \<and>
   analyze_encrypted_text init [] = Inr (ErrorMarker ''Empty text provided'') \<and>
   encrypt init [] 5 = Inl (ValueError ''Text cannot be empty'') \<and>
   decrypt init [] 5 = Inl (ValueError ''Encrypted text cannot be empty'') \<and>
   brute_force_decrypt init [] = Inl (ValueError ''Encrypted text cannot be empty'')"
  using analyze_never_fails [of init "py_str ''aabb''" 5] by simp

section \<open>Shift validation\<close>

text \<open>
  Claim C8. \<open>validate_shift\<close> returns a truth value for every Python value and never
  raises. For an integer it is true exactly when the integer is between 1 and 25; a
  boolean is an \<^verbatim>\<open>int\<close> instance with \<^verbatim>\<open>True == 1\<close> and \<^verbatim>\<open>False == 0\<close>, so it is
  true for \<^verbatim>\<open>True\<close> and false for \<^verbatim>\<open>False\<close>; for every value that is not an \<^verbatim>\<open>int\<close>
  instance it is false. So it is true for 13 and false for 0, for 26 and for the
  string \<^verbatim>\<open>x\<close>.
\<close>

theorem validate_shift_total:
  "validate_shift self (PInt n) = (1 \<le> n \<and> n \<le> 25) \<and>
   validate_shift self (PBool b) = b \<and>
   (\<not> isinstance_int v \<longrightarrow> validate_shift self v = False) \<and>
   validate_shift self (PInt 13) = True \<and>
   validate_shift self (PInt 0) = False \<and>
   validate_shift self (PInt 26) = False \<and>
   validate_shift self (PStr (py_str ''x'')) = False"
  by (simp add: validate_shift_def validate_shift_try_def int_le_def le_int_def)

theorem validate_shift_total_witness:
  "validate_shift init (PInt 25) = True \<and>
   validate_shift init (PBool False) = False \<and>
   validate_shift init (PFloat (5 / 2)) = False \<and>
   validate_shift init PNone = False"
  using validate_shift_total [of init 25 False "PFloat (5 / 2)"]
    validate_shift_total [of init 25 False PNone]
  by simp

section \<open>Shift suggestions\<close>

lemma str_contains_iff: "str_contains s p \<longleftrightarrow> (\<exists>u v. s = u @ p @ v)"
proof (induction s)
  case Nil
  then show ?case by auto
next
  case (Cons x xs)
  show ?case
  proof
    assume "str_contains (x # xs) p"
    then consider "prefix p (x # xs)" | "str_contains xs p" by auto
    then show "\<exists>u v. x # xs = u @ p @ v"
    proof cases
      case 1
      then obtain v where "x # xs = p @ v" by (auto simp: prefix_def)
      then have "x # xs = [] @ p @ v" by simp
      then show ?thesis by blast
    next
      case 2
      with Cons.IH obtain u v where "xs = u @ p @ v" by blast
      then have "x # xs = (x # u) @ p @ v" by simp
      then show ?thesis by blast
    qed
  next
    assume "\<exists>u v. x # xs = u @ p @ v"
    then obtain u v where uv: "x # xs = u @ p @ v" by blast
    show "str_contains (x # xs) p"
    proof (cases u)
      case Nil
      with uv have "prefix p (x # xs)" by (simp add: prefix_def)
      then show ?thesis by simp
    next
      case (Cons y u')
      with uv have "xs = u' @ p @ v" by simp
      with Cons.IH have "str_contains xs p" by blast
      then show ?thesis by simp
    qed
  qed
qed

lemma suggestions_loop_eq:
  "suggestions_loop lower sample ps acc =
     acc @ map snd (filter (\<lambda>(p, k). str_contains (lower sample) (lower p)) ps)"
  by (induction ps arbitrary: acc) auto

lemma found_subset: "set (found lower sample) \<subseteq> {3, 5, 7, 11, 13}"
  by (auto simp: found_def common_patterns_def)

lemma found_mem:
  "k \<in> set (found lower sample) \<longleftrightarrow>
   (\<exists>p. (p, k) \<in> set common_patterns \<and> str_contains (lower sample) (lower p))"
  by (force simp: found_def)

lemma found_iff:
  "k \<in> set (found lower sample) \<longleftrightarrow>
   (\<exists>p. (p, k) \<in> set common_patterns \<and> (\<exists>u v. lower sample = u @ lower p @ v))"
  by (simp only: found_mem str_contains_iff)

lemma length_remdups_found: "length (remdups (found lower sample)) \<le> 5"
proof -
  have "card (set (found lower sample)) \<le> card {3, 5, 7, 11, 13 :: int}"
    by (intro card_mono found_subset) simp
  then show ?thesis by (simp add: length_remdups_card_conv)
qed

lemma suggestions_found:
  assumes "sample \<noteq> []" "found lower sample \<noteq> []"
  shows "generate_shift_suggestions self lower sample = sort (remdups (found lower sample))"
  using assms length_remdups_found [of lower sample]
  by (simp add: generate_shift_suggestions_def suggestions_loop_eq found_def [symmetric] Let_def)

lemma suggestions_default:
  assumes "sample \<noteq> []" "found lower sample = []"
  shows "generate_shift_suggestions self lower sample = [1, 3, 5, 7, 13]"
proof -
  have "sort (remdups [1, 3, 5, 7, 13, 17, 21, 25 :: int]) = [1, 3, 5, 7, 13, 17, 21, 25]"
    by code_simp
  with assms show ?thesis
    by (simp add: generate_shift_suggestions_def suggestions_loop_eq found_def [symmetric] Let_def)
qed

lemma suggestions_shape:
  "sorted (generate_shift_suggestions self lower sample) \<and>
   distinct (generate_shift_suggestions self lower sample) \<and>
   length (generate_shift_suggestions self lower sample) \<le> 5"
proof (cases "sample = []")
  case True
  then show ?thesis by (simp add: generate_shift_suggestions_def)
next
  case False
  show ?thesis
  proof (cases "found lower sample = []")
    case True
    with False show ?thesis by (simp add: suggestions_default)
  next
    case nonempty: False
    with False show ?thesis
      using length_remdups_found [of lower sample] by (simp add: suggestions_found)
  qed
qed

text \<open>
  Claim C6. For the empty sample \<open>generate_shift_suggestions\<close> returns
  \<open>[1, 3, 5, 13]\<close>. For a non-empty sample, the shift of every pattern whose lower-cased
  form occurs in the lower-cased sample is in the result; when some pattern occurs the
  result holds exactly the shifts of the patterns that occur; when none occurs it is
  the first five entries of the default list \<open>[1, 3, 5, 7, 13, 17, 21, 25]\<close>. The
  result is always sorted ascending, without duplicates and at most five entries long.
  This holds for every lower-casing function \<open>lower\<close>.
\<close>

theorem shift_suggestions:
  "generate_shift_suggestions self lower [] = [1, 3, 5, 13] \<and>
   (sample \<noteq> [] \<and> (p, k) \<in> set common_patterns \<and> (\<exists>u v. lower sample = u @ lower p @ v)
      \<longrightarrow> k \<in> set (generate_shift_suggestions self lower sample)) \<and>
   (sample \<noteq> [] \<and> (\<exists>p k u v. (p, k) \<in> set common_patterns \<and> lower sample = u @ lower p @ v)
      \<longrightarrow> set (generate_shift_suggestions self lower sample) =
          {k. \<exists>p u v. (p, k) \<in> set common_patterns \<and> lower sample = u @ lower p @ v}) \<and>
   (sample \<noteq> [] \<and> \<not> (\<exists>p k u v. (p, k) \<in> set common_patterns \<and> lower sample = u @ lower p @ v)
      \<longrightarrow> generate_shift_suggestions self lower sample = take 5 [1, 3, 5, 7, 13, 17, 21, 25]) \<and>
   sorted (generate_shift_suggestions self lower sample) \<and>
   distinct (generate_shift_suggestions self lower sample) \<and>
   length (generate_shift_suggestions self lower sample) \<le> 5"
proof -
  have empty: "generate_shift_suggestions self lower [] = [1, 3, 5, 13]"
    by (simp add: generate_shift_suggestions_def)
  have nonempty_iff: "found lower sample \<noteq> [] \<longleftrightarrow>
      (\<exists>p k u v. (p, k) \<in> set common_patterns \<and> lower sample = u @ lower p @ v)"
  proof -
    have "found lower sample \<noteq> [] \<longleftrightarrow> (\<exists>k. k \<in> set (found lower sample))"
      by (cases "found lower sample") auto
    then show ?thesis unfolding found_iff by blast
  qed
  have set_found: "set (found lower sample) =
      {k. \<exists>p u v. (p, k) \<in> set common_patterns \<and> lower sample = u @ lower p @ v}"
    using found_iff [of _ lower sample] by blast
  have match: "set (generate_shift_suggestions self lower sample) = set (found lower sample)"
    if "sample \<noteq> []" "found lower sample \<noteq> []"
    using that by (simp add: suggestions_found)
  have c2: "k \<in> set (generate_shift_suggestions self lower sample)"
    if "sample \<noteq> []" "(p, k) \<in> set common_patterns" "\<exists>u v. lower sample = u @ lower p @ v"
  proof -
    from that have k: "k \<in> set (found lower sample)" unfolding found_iff by blast
    then have "found lower sample \<noteq> []" by auto
    with that(1) k show ?thesis by (simp add: match)
  qed
  have c3: "set (generate_shift_suggestions self lower sample) =
          {k. \<exists>p u v. (p, k) \<in> set common_patterns \<and> lower sample = u @ lower p @ v}"
    if "sample \<noteq> []" "\<exists>p k u v. (p, k) \<in> set common_patterns \<and> lower sample = u @ lower p @ v"
    using that match nonempty_iff set_found by simp
  have c4: "generate_shift_suggestions self lower sample = take 5 [1, 3, 5, 7, 13, 17, 21, 25]"
    if "sample \<noteq> []" "\<not> (\<exists>p k u v. (p, k) \<in> set common_patterns \<and> lower sample = u @ lower p @ v)"
  proof -
    from that(2) nonempty_iff have "found lower sample = []" by blast
    with that(1) have "generate_shift_suggestions self lower sample = [1, 3, 5, 7, 13]"
      by (rule suggestions_default)
    then show ?thesis by simp
  qed
  from empty c2 c3 c4 suggestions_shape [of self lower sample] show ?thesis by blast
qed

theorem shift_suggestions_witness:
  "generate_shift_suggestions init ascii_lower (py_str ''Print(1); DEF f'') = [3, 7] \<and>
   7 \<in> set (generate_shift_suggestions init ascii_lower (py_str ''Print(1); DEF f'')) \<and>
   generate_shift_suggestions init ascii_lower (py_str ''zzz'') = [1, 3, 5, 7, 13]"
proof -
  let ?s = "py_str ''Print(1); DEF f''"
  have ne: "?s \<noteq> []" by (simp add: py_str_def)
  have pat: "(py_str ''print('', 7) \<in> set common_patterns" by (simp add: common_patterns_def)
  have "ascii_lower ?s = [] @ ascii_lower (py_str ''print('') @ py_str ''1); def f''"
    by code_simp
  then have occ: "\<exists>u v. ascii_lower ?s = u @ ascii_lower (py_str ''print('') @ v" by blast
  have seven: "7 \<in> set (generate_shift_suggestions init ascii_lower ?s)"
    using shift_suggestions [of init ascii_lower ?s "py_str ''print(''" 7] ne pat occ by blast
  have v1: "generate_shift_suggestions init ascii_lower ?s = [3, 7]" by code_simp
  have v2: "generate_shift_suggestions init ascii_lower (py_str ''zzz'') = [1, 3, 5, 7, 13]"
    by code_simp
  from seven v1 v2 show ?thesis by blast
qed

section \<open>The most common symbol\<close>

lemma count_loop_frequency: "char_frequency (count_loop t a) = tally t (char_frequency a)"
  by (induction t arbitrary: a) (simp_all add: Let_def)

lemma count_loop_others:
  "length_chars (count_loop t a) = length_chars a \<and>
   unique_chars (count_loop t a) = unique_chars a \<and>
   most_common_char (count_loop t a) = most_common_char a"
  by (induction t arbitrary: a) (simp_all add: Let_def)

lemma firsts_Nil: "firsts [] = []"
  by (simp add: firsts_def)

lemma firsts_snoc: "firsts (p @ [c]) = (if c \<in> set p then firsts p else firsts p @ [c])"
  by (simp add: firsts_def)

lemma set_firsts: "set (firsts xs) = set xs"
  by (simp add: firsts_def)

lemma distinct_firsts: "distinct (firsts xs)"
  by (simp add: firsts_def)

lemma update_tabulate:
  "distinct xs \<Longrightarrow>
   AList.update c v (map (\<lambda>x. (x, f x)) xs) =
     (if c \<in> set xs then map (\<lambda>x. (x, if x = c then v else f x)) xs
      else map (\<lambda>x. (x, f x)) xs @ [(c, v)])"
  by (induction xs) auto

lemma map_of_tabulate_None: "k \<notin> set ks \<Longrightarrow> map_of (map (\<lambda>s. (s, f s)) ks) k = None"
  by (induction ks) auto

lemma count_list_snoc: "count_list (p @ [c]) x = count_list p x + (if x = c then 1 else 0)"
  by (induction p) auto

lemma dict_get_frequencies: "dict_get (frequencies p) c 0 = count_list p c"
proof (cases "c \<in> set p")
  case True
  then have "c \<in> set (firsts p)" by (simp add: set_firsts)
  then have "map_of (map (\<lambda>c. (c, count_list p c)) (firsts p)) c = Some (count_list p c)"
    by (rule map_of_tabulate)
  then show ?thesis by (simp add: dict_get_def frequencies_def)
next
  case False
  then have "c \<notin> set (firsts p)" by (simp add: set_firsts)
  then have "map_of (map (\<lambda>c. (c, count_list p c)) (firsts p)) c = None"
    by (rule map_of_tabulate_None)
  with False show ?thesis by (simp add: dict_get_def frequencies_def)
qed

lemma frequencies_snoc:
  "AList.update c (dict_get (frequencies p) c 0 + 1) (frequencies p) = frequencies (p @ [c])"
proof (cases "c \<in> set p")
  case True
  then show ?thesis
    by (simp only: dict_get_frequencies)
      (simp add: frequencies_def update_tabulate distinct_firsts
        set_firsts firsts_snoc count_list_snoc)
next
  case False
  then have "\<And>x. x \<in> set (firsts p) \<Longrightarrow> x \<noteq> c" by (auto simp: set_firsts)
  with False show ?thesis
    by (simp only: dict_get_frequencies)
      (auto simp: frequencies_def update_tabulate distinct_firsts
        set_firsts firsts_snoc count_list_snoc)
qed

lemma tally_frequencies: "tally r (frequencies p) = frequencies (p @ r)"
proof (induction r arbitrary: p)
  case Nil
  then show ?case by simp
next
  case (Cons c r)
  have "tally (c # r) (frequencies p) = tally r (frequencies (p @ [c]))"
    by (simp only: tally.simps frequencies_snoc)
  also have "\<dots> = frequencies ((p @ [c]) @ r)" by (rule Cons.IH)
  finally show ?case by simp
qed

lemma tally_empty: "tally t [] = frequencies t"
  using tally_frequencies [of t "[]"] by (simp add: frequencies_def firsts_def)

lemma firsts_position:
  "k < length (firsts t) \<Longrightarrow>
   \<exists>m < length t. t ! m = firsts t ! k \<and> set (take m t) = set (take k (firsts t))"
proof (induction t arbitrary: k rule: rev_induct)
  case Nil
  then show ?case by (simp add: firsts_Nil)
next
  case (snoc c p)
  show ?case
  proof (cases "k < length (firsts p)")
    case True
    from snoc.IH [OF True] obtain m where m: "m < length p" "p ! m = firsts p ! k"
      "set (take m p) = set (take k (firsts p))" by blast
    have "firsts (p @ [c]) ! k = firsts p ! k" "take k (firsts (p @ [c])) = take k (firsts p)"
      using True by (simp_all add: firsts_snoc nth_append)
    with m show ?thesis
      by (intro exI [of _ m]) (simp add: nth_append)
  next
    case False
    with snoc.prems have new: "c \<notin> set p" "k = length (firsts p)"
      by (auto simp: firsts_snoc split: if_splits)
    then have "firsts (p @ [c]) ! k = c" "take k (firsts (p @ [c])) = firsts p"
      by (simp_all add: firsts_snoc)
    then show ?thesis
      by (intro exI [of _ "length p"]) (simp add: set_firsts)
  qed
qed

lemma fold_max_first:
  fixes key :: "'a \<Rightarrow> 'k::linorder"
  shows "l = x # xs \<Longrightarrow>
     \<exists>i < length l.
       fold (\<lambda>item best. if key best < key item then item else best) xs x = l ! i \<and>
       (\<forall>j < i. key (l ! j) < key (l ! i)) \<and> (\<forall>z \<in> set l. key z \<le> key (l ! i))"
proof (induction xs arbitrary: l rule: rev_induct)
  case Nil
  then show ?case by simp
next
  case (snoc y xs)
  let ?f = "\<lambda>item best. if key best < key item then item else best"
  define l0 where "l0 = x # xs"
  then have l: "l = l0 @ [y]" using snoc.prems by simp
  from snoc.IH [OF l0_def] obtain i where i: "i < length l0" "fold ?f xs x = l0 ! i"
    "\<forall>j < i. key (l0 ! j) < key (l0 ! i)" "\<forall>z \<in> set l0. key z \<le> key (l0 ! i)" by blast
  have old: "l ! j = l0 ! j" if "j < length l0" for j
    using that by (simp add: l nth_append)
  have new: "l ! length l0 = y" by (simp add: l)
  have step: "fold ?f (xs @ [y]) x = (if key (l0 ! i) < key y then y else l0 ! i)"
    by (simp add: i(2))
  show ?case
  proof (cases "key (l0 ! i) < key y")
    case True
    have "length l0 < length l" by (simp add: l)
    moreover have "fold ?f (xs @ [y]) x = l ! length l0" using True step new by simp
    moreover have "key (l ! j) < key (l ! length l0)" if "j < length l0" for j
    proof -
      have "l0 ! j \<in> set l0" using that by simp
      with i(4) have "key (l0 ! j) \<le> key (l0 ! i)" by blast
      with True show ?thesis by (simp add: old [OF that] new)
    qed
    moreover have "\<forall>z \<in> set l. key z \<le> key (l ! length l0)"
    proof
      fix z assume "z \<in> set l"
      then consider "z \<in> set l0" | "z = y" by (auto simp: l)
      then show "key z \<le> key (l ! length l0)"
      proof cases
        case 1
        with i(4) have "key z \<le> key (l0 ! i)" by blast
        with True show ?thesis by (simp add: new)
      next
        case 2
        then show ?thesis by (simp add: new)
      qed
    qed
    ultimately show ?thesis by blast
  next
    case False
    have "i < length l" using i(1) by (simp add: l)
    moreover have "fold ?f (xs @ [y]) x = l ! i" using False step old [OF i(1)] by simp
    moreover have "key (l ! j) < key (l ! i)" if "j < i" for j
    proof -
      from that i(1) have "j < length l0" by simp
      with that i(3) show ?thesis by (simp add: old i(1))
    qed
    moreover have "\<forall>z \<in> set l. key z \<le> key (l ! i)"
    proof
      fix z assume "z \<in> set l"
      then consider "z \<in> set l0" | "z = y" by (auto simp: l)
      then show "key z \<le> key (l ! i)"
      proof cases
        case 1
        with i(4) show ?thesis by (simp add: old [OF i(1)])
      next
        case 2
        with False show ?thesis by (simp add: old [OF i(1)])
      qed
    qed
    ultimately show ?thesis by blast
  qed
qed

lemma py_max_first:
  fixes key :: "'a \<Rightarrow> 'k::linorder"
  shows "xs \<noteq> [] \<Longrightarrow>
   \<exists>i < length xs. py_max key xs = Inr (xs ! i) \<and>
     (\<forall>j < i. key (xs ! j) < key (xs ! i)) \<and> (\<forall>y \<in> set xs. key y \<le> key (xs ! i))"
proof (cases xs)
  case Nil
  assume "xs \<noteq> []"
  with Nil show ?thesis by simp
next
  case (Cons x xs')
  from fold_max_first [OF Cons, of key] show ?thesis by (simp only: Cons py_max.simps sum.inject)
qed

lemma round_half_even_close: "\<bar>of_int (round_half_even y) - y\<bar> \<le> 1 / 2"
proof -
  have "of_int \<lfloor>y\<rfloor> \<le> y" "y < of_int \<lfloor>y\<rfloor> + 1" by linarith+
  then show ?thesis
    by (auto simp: round_half_even_def Let_def abs_le_iff)
qed

lemma frequencies_nth:
  "k < length (firsts t) \<Longrightarrow> frequencies t ! k = (firsts t ! k, count_list t (firsts t ! k))"
  by (simp add: frequencies_def)

lemma length_frequencies: "length (frequencies t) = length (firsts t)"
  by (simp add: frequencies_def)

lemma frequencies_nonempty: "t \<noteq> [] \<Longrightarrow> frequencies t \<noteq> []"
proof -
  assume "t \<noteq> []"
  then have "set (firsts t) \<noteq> {}" by (simp add: set_firsts)
  then show ?thesis by (auto simp: frequencies_def)
qed

lemma count_le_max:
  assumes "\<forall>y \<in> set (frequencies t). snd y \<le> n"
  shows "count_list t d \<le> n"
proof (cases "d \<in> set t")
  case True
  then have "(d, count_list t d) \<in> set (frequencies t)"
    by (auto simp: frequencies_def set_firsts)
  with assms show ?thesis by fastforce
next
  case False
  then show ?thesis by simp
qed

lemma most_common_of_frequencies:
  assumes "t \<noteq> []"
  shows "\<exists>c. py_max snd (frequencies t) = Inr (c, count_list t c) \<and>
     (\<forall>d. count_list t d \<le> count_list t c) \<and>
     (\<exists>i < length t. t ! i = c \<and> (\<forall>j < i. count_list t (t ! j) < count_list t c))"
proof -
  let ?l = "frequencies t"
  from py_max_first [OF frequencies_nonempty [OF assms], of snd]
  obtain k where k: "k < length ?l" "py_max snd ?l = Inr (?l ! k)"
    "\<forall>j < k. snd (?l ! j) < snd (?l ! k)" "\<forall>y \<in> set ?l. snd y \<le> snd (?l ! k)" by blast
  define c where "c = firsts t ! k"
  have kf: "k < length (firsts t)" using k(1) by (simp only: length_frequencies)
  have lk: "?l ! k = (c, count_list t c)"
    unfolding c_def using kf by (rule frequencies_nth)
  have "\<forall>y \<in> set ?l. snd y \<le> count_list t c" using k(4) by (simp only: lk snd_conv)
  then have top: "\<And>d. count_list t d \<le> count_list t c" by (rule count_le_max)
  from firsts_position [OF kf] obtain m where m: "m < length t" "t ! m = c"
    "set (take m t) = set (take k (firsts t))" unfolding c_def by blast
  have before: "count_list t (t ! j) < count_list t c" if "j < m" for j
  proof -
    have "j < length (take m t)" using that m(1) by simp
    then have "take m t ! j \<in> set (take m t)" by (rule nth_mem)
    then have "t ! j \<in> set (take m t)" using that by simp
    then have "t ! j \<in> set (take k (firsts t))" by (simp only: m(3))
    then obtain j' where j': "j' < length (take k (firsts t))"
      "take k (firsts t) ! j' = t ! j" by (auto simp only: in_set_conv_nth)
    from j'(1) have jk: "j' < k" by simp
    with j'(2) have nth: "firsts t ! j' = t ! j" by simp
    from jk kf have "j' < length (firsts t)" by simp
    then have "?l ! j' = (firsts t ! j', count_list t (firsts t ! j'))"
      by (rule frequencies_nth)
    then have lj: "snd (?l ! j') = count_list t (t ! j)" by (simp add: nth)
    from k(3) jk have "snd (?l ! j') < snd (?l ! k)" by blast
    then show ?thesis by (simp only: lj lk snd_conv)
  qed
  have "m < length t \<and> t ! m = c \<and> (\<forall>j < m. count_list t (t ! j) < count_list t c)"
    using m(1,2) before by blast
  then have pos: "\<exists>i < length t. t ! i = c \<and> (\<forall>j < i. count_list t (t ! j) < count_list t c)"
    by blast
  have "py_max snd ?l = Inr (c, count_list t c)" using k(2) by (simp only: lk)
  with top pos show ?thesis by blast
qed

lemma py_round_hundredths:
  "\<exists>k. py_round x 2 = float_of (of_int k / 100) \<and> \<bar>of_int k - 100 * x\<bar> \<le> 1 / 2"
proof -
  have "\<bar>of_int (round_half_even (x * 100)) - x * 100\<bar> \<le> 1 / 2"
    by (rule round_half_even_close)
  then show ?thesis
    by (intro exI [of _ "round_half_even (x * 100)"]) (simp add: py_round_def mult.commute)
qed

lemma analyze_nonempty:
  assumes "t \<noteq> []"
  shows "\<exists>a c. analyze_encrypted_text self t = Inr (Analysis a) \<and>
     length_chars a = length t \<and> unique_chars a = card (set t) \<and>
     char_frequency a = frequencies t \<and>
     most_common_char a = Some \<lparr>mc_char = c, mc_count = count_list t c,
       mc_percentage =
         py_round (float_mul (float_of (of_nat (count_list t c) / of_nat (length t))) 100) 2\<rparr> \<and>
     (\<forall>d. count_list t d \<le> count_list t c) \<and>
     (\<exists>i < length t. t ! i = c \<and> (\<forall>j < i. count_list t (t ! j) < count_list t c))"
proof -
  define a where "a = count_loop t
     \<lparr>length_chars = length t, unique_chars = card (set t), char_frequency = [],
      most_common_char = None, printable_chars = 0, non_printable_chars = 0\<rparr>"
  have freq: "char_frequency a = frequencies t"
    by (simp add: a_def count_loop_frequency tally_empty)
  have others: "length_chars a = length t" "unique_chars a = card (set t)"
    by (simp_all add: a_def count_loop_others)
  from most_common_of_frequencies [OF assms] obtain c
    where c: "py_max snd (frequencies t) = Inr (c, count_list t c)"
      "\<forall>d. count_list t d \<le> count_list t c"
      "\<exists>i < length t. t ! i = c \<and> (\<forall>j < i. count_list t (t ! j) < count_list t c)"
    by blast
  have len: "int (length t) \<noteq> 0" using assms by simp
  let ?mc = "\<lparr>mc_char = c, mc_count = count_list t c,
       mc_percentage =
         py_round (float_mul (float_of (of_nat (count_list t c) / of_nat (length t))) 100) 2\<rparr>"
  have "analyze_encrypted_text self t = Inr (Analysis (a\<lparr>most_common_char := Some ?mc\<rparr>))"
    using assms frequencies_nonempty [OF assms] len
    by (simp add: analyze_encrypted_text_def a_def [symmetric] Let_def freq c(1) py_truediv_def)
  with others freq c(2,3) show ?thesis
    by (intro exI [of _ "a\<lparr>most_common_char := Some ?mc\<rparr>"] exI [of _ c]) simp
qed

text \<open>
  Claim C5. For every non-empty text \<open>t\<close>, \<open>analyze_encrypted_text\<close> returns an analysis
  with the length of \<open>t\<close>, the number of its distinct symbols, and a most common
  symbol \<open>c\<close> with its count such that: the count is the number of occurrences of
  \<open>c\<close> in \<open>t\<close>; no symbol occurs more often; and every symbol that occurs before the
  first \<open>c\<close> occurs strictly less often, so among the symbols with the maximal count
  \<open>c\<close> is the one whose first occurrence is leftmost. The percentage is
  \<^verbatim>\<open>round((count / len(t)) * 100, 2)\<close> in floating point: the float nearest to
  \<open>k / 100\<close> for the integer \<open>k\<close> nearest to a hundred times the float product.
  For \<^verbatim>\<open>aabb\<close> the length is 4, the number of distinct symbols 2, and the most
  common symbol \<^verbatim>\<open>a\<close> with count 2 and percentage 50.0.
\<close>

theorem most_common_leftmost:
  "(t \<noteq> [] \<longrightarrow>
      (\<exists>a mc. analyze_encrypted_text self t = Inr (Analysis a) \<and>
         length_chars a = length t \<and> unique_chars a = card (set t) \<and>
         most_common_char a = Some mc \<and>
         mc_count mc = count_list t (mc_char mc) \<and>
         (\<forall>d. count_list t d \<le> mc_count mc) \<and>
         (\<exists>i < length t. t ! i = mc_char mc \<and> (\<forall>j < i. count_list t (t ! j) < mc_count mc)) \<and>
         mc_percentage mc =
           py_round (float_mul (float_of (of_nat (mc_count mc) / of_nat (length t))) 100) 2 \<and>
         (\<exists>k. mc_percentage mc = float_of (of_int k / 100) \<and>
            \<bar>of_int k -
              100 * float_mul (float_of (of_nat (mc_count mc) / of_nat (length t))) 100\<bar> \<le> 1 / 2))) \<and>
   analyze_encrypted_text self (py_str ''aabb'') =
     Inr (Analysis \<lparr>length_chars = 4, unique_chars = 2,
        char_frequency = [(of_char CHR ''a'', 2), (of_char CHR ''b'', 2)],
        most_common_char = Some \<lparr>mc_char = of_char CHR ''a'', mc_count = 2, mc_percentage = 50\<rparr>,
        printable_chars = 4, non_printable_chars = 0\<rparr>)"
proof -
  have general: "\<exists>a mc. analyze_encrypted_text self t = Inr (Analysis a) \<and>
         length_chars a = length t \<and> unique_chars a = card (set t) \<and>
         most_common_char a = Some mc \<and>
         mc_count mc = count_list t (mc_char mc) \<and>
         (\<forall>d. count_list t d \<le> mc_count mc) \<and>
         (\<exists>i < length t. t ! i = mc_char mc \<and> (\<forall>j < i. count_list t (t ! j) < mc_count mc)) \<and>
         mc_percentage mc =
           py_round (float_mul (float_of (of_nat (mc_count mc) / of_nat (length t))) 100) 2 \<and>
         (\<exists>k. mc_percentage mc = float_of (of_int k / 100) \<and>
            \<bar>of_int k -
              100 * float_mul (float_of (of_nat (mc_count mc) / of_nat (length t))) 100\<bar> \<le> 1 / 2)"
    if ne: "t \<noteq> []"
  proof -
    from analyze_nonempty [OF ne, of self] obtain a c
      where a: "analyze_encrypted_text self t = Inr (Analysis a)"
        "length_chars a = length t" "unique_chars a = card (set t)"
        "most_common_char a = Some \<lparr>mc_char = c, mc_count = count_list t c,
           mc_percentage =
             py_round (float_mul (float_of (of_nat (count_list t c) / of_nat (length t))) 100) 2\<rparr>"
        "\<forall>d. count_list t d \<le> count_list t c"
        "\<exists>i < length t. t ! i = c \<and> (\<forall>j < i. count_list t (t ! j) < count_list t c)"
      by blast
    let ?x = "float_mul (float_of (of_nat (count_list t c) / of_nat (length t))) 100"
    let ?mc = "\<lparr>mc_char = c, mc_count = count_list t c, mc_percentage = py_round ?x 2\<rparr>"
    from py_round_hundredths [of ?x] obtain k
      where k: "py_round ?x 2 = float_of (of_int k / 100)" "\<bar>of_int k - 100 * ?x\<bar> \<le> 1 / 2"
      by blast
    have "mc_count ?mc = count_list t (mc_char ?mc)" by simp
    moreover have "\<forall>d. count_list t d \<le> mc_count ?mc" using a(5) by simp
    moreover have "\<exists>i < length t. t ! i = mc_char ?mc \<and>
        (\<forall>j < i. count_list t (t ! j) < mc_count ?mc)" using a(6) by simp
    moreover have "mc_percentage ?mc =
        py_round (float_mul (float_of (of_nat (mc_count ?mc) / of_nat (length t))) 100) 2"
      by simp
    moreover have "\<exists>k. mc_percentage ?mc = float_of (of_int k / 100) \<and>
        \<bar>of_int k - 100 * float_mul (float_of (of_nat (mc_count ?mc) / of_nat (length t))) 100\<bar>
          \<le> 1 / 2"
      using k by auto
    ultimately show ?thesis using a(1-4) by blast
  qed
  have "analyze_encrypted_text self (py_str ''aabb'') =
     Inr (Analysis \<lparr>length_chars = 4, unique_chars = 2,
        char_frequency = [(of_char CHR ''a'', 2), (of_char CHR ''b'', 2)],
        most_common_char = Some \<lparr>mc_char = of_char CHR ''a'', mc_count = 2, mc_percentage = 50\<rparr>,
        printable_chars = 4, non_printable_chars = 0\<rparr>)"
    by code_simp
  with general show ?thesis by blast
qed

theorem most_common_leftmost_witness:
  "\<exists>a mc. analyze_encrypted_text init (py_str ''abcbc'') = Inr (Analysis a) \<and>
     most_common_char a = Some mc \<and> mc_char mc = of_char CHR ''b'' \<and> mc_count mc = 2 \<and>
     mc_percentage mc = 40"
proof -
  have ne: "py_str ''abcbc'' \<noteq> []" by (simp add: py_str_def)
  have v: "analyze_encrypted_text init (py_str ''abcbc'') =
     Inr (Analysis \<lparr>length_chars = 5, unique_chars = 3,
        char_frequency = [(of_char CHR ''a'', 1), (of_char CHR ''b'', 2), (of_char CHR ''c'', 2)],
        most_common_char = Some \<lparr>mc_char = of_char CHR ''b'', mc_count = 2, mc_percentage = 40\<rparr>,
        printable_chars = 5, non_printable_chars = 0\<rparr>)"
    by code_simp
  from most_common_leftmost [of "py_str ''abcbc''" init] ne
  obtain a mc where "analyze_encrypted_text init (py_str ''abcbc'') = Inr (Analysis a)"
    "most_common_char a = Some mc" by blast
  with v show ?thesis by auto
qed

end
